theory Spec2Isabelle
  imports Complex_Main
begin

section \<open>Python primitives used by the transcriber\<close>

text \<open>
  Times are Python floats. They are modelled as exact reals: floor division, the
  remainder and the subtraction of the integer part are exact on doubles, so the only
  rounding the source performs (the product by 1000 in the milliseconds) is not part of
  this model. Strings are lists of characters.
\<close>

datatype py_error = IndexError | ValueError

definition py_int :: "real \<Rightarrow> int" where
  \<comment> \<open>\<open>int(x)\<close> on a float truncates towards zero.\<close>
  "py_int x = (if 0 \<le> x then \<lfloor>x\<rfloor> else \<lceil>x\<rceil>)"

definition py_floordiv :: "real \<Rightarrow> real \<Rightarrow> real" where
  \<comment> \<open>\<open>x // y\<close>; the source only divides by the literals 3600 and 60.\<close>
  "py_floordiv x y = of_int \<lfloor>x / y\<rfloor>"

definition py_mod :: "real \<Rightarrow> real \<Rightarrow> real" where
  \<comment> \<open>\<open>x % y\<close> with a positive divisor: the result has the divisor's sign.\<close>
  "py_mod x y = x - y * of_int \<lfloor>x / y\<rfloor>"

definition digit_char :: "nat \<Rightarrow> char" where
  "digit_char d = ''0123456789'' ! d"

fun str_nat :: "nat \<Rightarrow> string" where
  "str_nat n = (if n < 10 then [digit_char n]
                else str_nat (n div 10) @ [digit_char (n mod 10)])"

declare str_nat.simps [simp del]

definition str_int :: "int \<Rightarrow> string" where
  \<comment> \<open>\<open>str(n)\<close>, also what \<open>f"{n}"\<close> renders.\<close>
  "str_int n = (if n < 0 then CHR ''-'' # str_nat (nat (- n)) else str_nat (nat n))"

definition zfill :: "nat \<Rightarrow> string \<Rightarrow> string" where
  "zfill w s = replicate (w - length s) CHR ''0'' @ s"

definition format_0w :: "nat \<Rightarrow> int \<Rightarrow> string" where
  \<comment> \<open>\<open>f"{n:0w}"\<close>: zero padding to width \<open>w\<close>, placed after the sign.\<close>
  "format_0w w n =
     (if n < 0 then CHR ''-'' # zfill (w - 1) (str_nat (nat (- n)))
      else zfill w (str_nat (nat n)))"

section \<open>The timestamp formatter (transcribe.py, \<open>format_srt_time\<close>)\<close>

definition format_srt_time :: "real \<Rightarrow> string" where
  "format_srt_time seconds =
     (let hours = py_int (py_floordiv seconds 3600);
          minutes = py_int (py_floordiv (py_mod seconds 3600) 60);
          secs = py_int (py_mod seconds 60);
          millis = py_int ((seconds - of_int (py_int seconds)) * 1000)
      in format_0w 2 hours @ '':'' @ format_0w 2 minutes @ '':'' @
         format_0w 2 secs @ '','' @ format_0w 3 millis)"



section \<open>Strings, slices and ranges\<close>

definition py_isspace :: "char \<Rightarrow> bool" where
  \<comment> \<open>The ASCII characters \<open>str.isspace\<close> accepts: TAB, LF, VT, FF, CR, FS, GS, RS, US
      and the space; whitespace beyond ASCII is outside this model.\<close>
  "py_isspace c = (c \<in> set [CHR 0x09, CHR 0x0A, CHR 0x0B, CHR 0x0C, CHR 0x0D,
                              CHR 0x1C, CHR 0x1D, CHR 0x1E, CHR 0x1F, CHR 0x20])"

definition strip :: "string \<Rightarrow> string" where
  \<comment> \<open>\<open>s.strip()\<close>\<close>
  "strip s = rev (dropWhile py_isspace (rev (dropWhile py_isspace s)))"

definition lstrip_chars :: "string \<Rightarrow> string \<Rightarrow> string" where
  \<comment> \<open>\<open>s.lstrip(chars)\<close>\<close>
  "lstrip_chars chars s = dropWhile (\<lambda>c. c \<in> set chars) s"

definition slice_index :: "nat \<Rightarrow> int \<Rightarrow> nat" where
  \<comment> \<open>A slice bound against a sequence of length \<open>n\<close>: a negative bound counts from
      the end, and every bound is clamped to \<open>0..n\<close>.\<close>
  "slice_index n i = (if i < 0 then nat (max 0 (int n + i)) else min n (nat i))"

definition py_slice :: "'a list \<Rightarrow> int \<Rightarrow> int \<Rightarrow> 'a list" where
  \<comment> \<open>\<open>xs[lo:hi]\<close>\<close>
  "py_slice xs lo hi =
     (let n = length xs; l = slice_index n lo; h = slice_index n hi
      in take (h - l) (drop l xs))"

definition py_range :: "int \<Rightarrow> int \<Rightarrow> int \<Rightarrow> py_error + int list" where
  \<comment> \<open>\<open>range(start, stop, step)\<close>; a zero step raises ValueError.\<close>
  "py_range start stop step =
     (if step = 0 then Inl ValueError
      else if 0 < step then
        Inr (map (\<lambda>k. start + int k * step) [0..<nat ((stop - start + step - 1) div step)])
      else
        Inr (map (\<lambda>k. start + int k * step) [0..<nat ((start - stop - step - 1) div (- step))]))"

section \<open>Recognizer output and the subtitle writer\<close>

text \<open>
  The recognizer's \<open>Word\<close> and \<open>Segment\<close> objects, with the attributes the transcriber
  reads. \<open>seg_words\<close> is \<open>None\<close> when word timestamps were not produced.
\<close>

record Word =
  word_start :: real
  word_end :: real
  word_text :: string

record segment =
  seg_start :: real
  seg_end :: real
  seg_text :: string
  seg_words :: "Word list option"

text \<open>
  A cue is the tuple of values one emission writes: the caption number, the two times
  and the text. The writer state is the counter \<open>caption_num\<close>, the text written to the
  subtitle file so far, and the cues emitted so far.
\<close>

record cue =
  cue_index :: int
  cue_start :: real
  cue_end :: real
  cue_text :: string

record writer =
  caption_num :: int
  written :: string
  cues :: "cue list"

definition srt_block :: "cue \<Rightarrow> string" where
  \<comment> \<open>The three \<open>f.write\<close> calls of one emission.\<close>
  "srt_block c =
     str_int (cue_index c) @ [CHR 0x0A] @
     format_srt_time (cue_start c) @ '' --> '' @ format_srt_time (cue_end c) @ [CHR 0x0A] @
     cue_text c @ [CHR 0x0A, CHR 0x0A]"

definition write_cue :: "real \<Rightarrow> real \<Rightarrow> string \<Rightarrow> writer \<Rightarrow> writer" where
  \<comment> \<open>One emission: the three writes, then \<open>caption_num += 1\<close>. The progress line
      (printed, or yielded as an event) changes neither the file nor the counter and
      is left out.\<close>
  "write_cue start end' text st =
     (let c = \<lparr>cue_index = caption_num st, cue_start = start, cue_end = end', cue_text = text\<rparr>
      in \<lparr>caption_num = caption_num st + 1,
          written = written st @ srt_block c,
          cues = cues st @ [c]\<rparr>)"

fun chunk_loop :: "Word list \<Rightarrow> int \<Rightarrow> int list \<Rightarrow> writer \<Rightarrow> py_error + writer" where
  \<comment> \<open>The body of \<open>for i in range(0, len(words), max_words)\<close>, over the indices left.
      \<open>chunk[0]\<close> and \<open>chunk[-1]\<close> raise IndexError on an empty chunk.\<close>
  "chunk_loop words max_words [] st = Inr st"
| "chunk_loop words max_words (i # rest) st =
     (case py_slice words i (i + max_words) of
        [] \<Rightarrow> Inl IndexError
      | w # ws \<Rightarrow>
          chunk_loop words max_words rest
            (write_cue (word_start w) (word_end (last (w # ws)))
               (strip (concat (map word_text (w # ws)))) st))"

definition whole_segment :: "segment \<Rightarrow> writer \<Rightarrow> writer" where
  \<comment> \<open>The \<open>else\<close> branch: one cue for the segment.\<close>
  "whole_segment seg st = write_cue (seg_start seg) (seg_end seg) (strip (seg_text seg)) st"

definition process_segment :: "int option \<Rightarrow> segment \<Rightarrow> writer \<Rightarrow> py_error + writer" where
  \<comment> \<open>One iteration of \<open>for segment in segments\<close>. The test \<open>max_words and segment.words\<close>
      is false for \<open>None\<close>, for \<open>0\<close>, and for a segment whose words are \<open>None\<close> or empty.\<close>
  "process_segment max_words seg st =
     (case max_words of
        None \<Rightarrow> Inr (whole_segment seg st)
      | Some mw \<Rightarrow>
          (case seg_words seg of
             None \<Rightarrow> Inr (whole_segment seg st)
           | Some words \<Rightarrow>
               if mw = 0 \<or> words = [] then Inr (whole_segment seg st)
               else (case py_range 0 (int (length words)) mw of
                       Inl e \<Rightarrow> Inl e
                     | Inr indices \<Rightarrow> chunk_loop words mw indices st)))"

fun segments_loop :: "int option \<Rightarrow> segment list \<Rightarrow> writer \<Rightarrow> py_error + writer" where
  "segments_loop max_words [] st = Inr st"
| "segments_loop max_words (seg # rest) st =
     (case process_segment max_words seg st of
        Inl e \<Rightarrow> Inl e
      | Inr st' \<Rightarrow> segments_loop max_words rest st')"

definition initial_writer :: writer where
  \<comment> \<open>The file just opened for writing, and \<open>caption_num = 1\<close>.\<close>
  "initial_writer = \<lparr>caption_num = 1, written = [], cues = []\<rparr>"

definition transcribe_to_srt :: "segment list \<Rightarrow> int option \<Rightarrow> py_error + writer" where
  \<comment> \<open>transcribe.py, lines 32-55, over the segments the recognizer yields.\<close>
  "transcribe_to_srt segments max_words = segments_loop max_words segments initial_writer"

definition generate :: "segment list \<Rightarrow> int option \<Rightarrow> py_error + writer" where
  \<comment> \<open>app.py, lines 79-103: the same loop, statement for statement, inside the
      streaming response.\<close>
  "generate segments max_words = segments_loop max_words segments initial_writer"

section \<open>The style colour (app.py, \<open>hex_to_ass\<close>)\<close>

definition hex_to_ass :: "string \<Rightarrow> string" where
  "hex_to_ass hex_color =
     (let h = lstrip_chars ''#'' hex_color;
          r = py_slice h 0 2; g = py_slice h 2 4; b = py_slice h 4 6
      in ''&H'' @ b @ g @ r)"

definition is_hex_digit :: "char \<Rightarrow> bool" where
  "is_hex_digit c = (c \<in> set ''0123456789abcdefABCDEF'')"

section \<open>The chunking policies as the specification words them\<close>

function windows :: "nat \<Rightarrow> 'a list \<Rightarrow> 'a list list" where
  \<comment> \<open>Consecutive windows of \<open>n\<close> elements; the last one takes what is left.\<close>
  "windows n xs = (if n = 0 \<or> xs = [] then [] else take n xs # windows n (drop n xs))"
  by pat_completeness auto
termination
  by (relation "measure (\<lambda>(n, xs). length xs)") auto

declare windows.simps [simp del]

text \<open>
  A caption is a cue that has no number yet: start, end and text.
\<close>

type_synonym caption = "real \<times> real \<times> string"

definition window_caption :: "Word list \<Rightarrow> caption" where
  \<comment> \<open>From the first word's start to the last word's end; the word texts are joined
      with no separator and the result is stripped.\<close>
  "window_caption w =
     (word_start (hd w), word_end (last w), strip (concat (map word_text w)))"

definition whole_caption :: "segment \<Rightarrow> caption" where
  "whole_caption seg = (seg_start seg, seg_end seg, strip (seg_text seg))"

fun number_from :: "int \<Rightarrow> caption list \<Rightarrow> cue list" where
  \<comment> \<open>Number a list of captions consecutively, from \<open>k\<close> on.\<close>
  "number_from k [] = []"
| "number_from k ((s, e, t) # cs) =
     \<lparr>cue_index = k, cue_start = s, cue_end = e, cue_text = t\<rparr> # number_from (k + 1) cs"

definition policy_captions :: "nat \<Rightarrow> segment \<Rightarrow> caption list" where
  \<comment> \<open>The policy chosen for one segment when \<open>max_words\<close> is a positive number: a
      segment that carries words is cut into windows, any other segment is one caption.\<close>
  "policy_captions max_words seg =
     (case seg_words seg of
        None \<Rightarrow> [whole_caption seg]
      | Some ws \<Rightarrow>
          if ws = [] then [whole_caption seg]
          else map window_caption (windows max_words ws))"

section \<open>What one run emits\<close>

definition emit_all :: "caption list \<Rightarrow> writer \<Rightarrow> writer" where
  \<comment> \<open>The writer after the given captions have been emitted one after the other.\<close>
  "emit_all cs st =
     \<lparr>caption_num = caption_num st + int (length cs),
      written = written st @ concat (map srt_block (number_from (caption_num st) cs)),
      cues = cues st @ number_from (caption_num st) cs\<rparr>"

definition emitted :: "int option \<Rightarrow> segment \<Rightarrow> caption list" where
  \<comment> \<open>The captions one segment contributes, for every value of \<open>max_words\<close>.\<close>
  "emitted max_words seg =
     (case max_words of
        None \<Rightarrow> [whole_caption seg]
      | Some mw \<Rightarrow>
          (case seg_words seg of
             None \<Rightarrow> [whole_caption seg]
           | Some ws \<Rightarrow>
               if mw = 0 \<or> ws = [] then [whole_caption seg]
               else if mw < 0 then []
               else map window_caption (windows (nat mw) ws)))"

section \<open>Reading a subtitle file back\<close>




fun split_on :: "char \<Rightarrow> string \<Rightarrow> string list" where
  \<comment> \<open>The pieces of a string between the occurrences of a separator.\<close>
  "split_on sep [] = [[]]"
| "split_on sep (c # cs) =
     (if c = sep then [] # split_on sep cs
      else (case split_on sep cs of [] \<Rightarrow> [[c]] | l # ls \<Rightarrow> (c # l) # ls))"















section \<open>Chronological input\<close>

text \<open>
  The orderings of the input that the temporal claim speaks of: segment starts do not
  decrease; the word starts of a segment do not decrease; and, for \<open>words_inside\<close>, no
  word starts before its own segment or after the next segment.
\<close>

definition segments_in_order :: "segment list \<Rightarrow> bool" where
  "segments_in_order segs = sorted (map seg_start segs)"

definition words_in_order :: "segment \<Rightarrow> bool" where
  "words_in_order seg =
     (case seg_words seg of None \<Rightarrow> True | Some ws \<Rightarrow> sorted (map word_start ws))"

fun words_inside :: "segment list \<Rightarrow> bool" where
  "words_inside [] = True"
| "words_inside (seg # rest) =
     ((case seg_words seg of
         None \<Rightarrow> True
       | Some ws \<Rightarrow>
           list_all (\<lambda>w. seg_start seg \<le> word_start w \<and>
                          (case rest of [] \<Rightarrow> True | nxt # _ \<Rightarrow> word_start w \<le> seg_start nxt)) ws)
      \<and> words_inside rest)"

definition overlapping :: "segment list" where
  "overlapping =
     [\<lparr>seg_start = 0, seg_end = 10, seg_text = '' one two'',
       seg_words = Some [\<lparr>word_start = 0, word_end = 1, word_text = '' one''\<rparr>,
                         \<lparr>word_start = 8, word_end = 9, word_text = '' two''\<rparr>]\<rparr>,
      \<lparr>seg_start = 5, seg_end = 12, seg_text = '' three'',
       seg_words = Some [\<lparr>word_start = 5, word_end = 6, word_text = '' three''\<rparr>]\<rparr>]"

definition cue_starts :: "py_error + writer \<Rightarrow> py_error + real list" where
  "cue_starts = map_sum id (map cue_start \<circ> cues)"

section \<open>A recognizer output used as running example\<close>

definition hi_there_friend :: "Word list" where
  "hi_there_friend =
     [\<lparr>word_start = 0, word_end = 0.5, word_text = ''Hi''\<rparr>,
      \<lparr>word_start = 0.5, word_end = 1, word_text = '' there''\<rparr>,
      \<lparr>word_start = 1, word_end = 1.6, word_text = '' friend''\<rparr>]"

definition greeting :: segment where
  "greeting = \<lparr>seg_start = 0, seg_end = 1.6, seg_text = '' Hi there friend'',
               seg_words = Some hi_there_friend\<rparr>"

definition reply :: segment where
  "reply = \<lparr>seg_start = 2.5, seg_end = 4, seg_text = '' General Kenobi '', seg_words = None\<rparr>"

section \<open>Properties of the formatter\<close>









section \<open>The loops emit what \<open>emitted\<close> lists\<close>

lemma number_from_append:
  "number_from k (cs @ ds) = number_from k cs @ number_from (k + int (length cs)) ds"
  by (induction k cs rule: number_from.induct) (simp_all add: algebra_simps)

lemma length_number_from [simp]: "length (number_from k cs) = length cs"
  by (induction k cs rule: number_from.induct) simp_all

lemma emit_all_Nil [simp]: "emit_all [] st = st"
  by (simp add: emit_all_def)

lemma emit_all_emit_all: "emit_all ds (emit_all cs st) = emit_all (cs @ ds) st"
  by (simp add: emit_all_def number_from_append algebra_simps)

lemma write_cue_emit:
  "write_cue s e t st = emit_all [(s, e, t)] st"
  by (simp add: write_cue_def emit_all_def Let_def)

lemma whole_segment_emit: "whole_segment seg st = emit_all [whole_caption seg] st"
  by (simp add: whole_segment_def write_cue_emit whole_caption_def)

lemma py_slice_nat:
  "py_slice xs (int i) (int i + int m) = take m (drop i xs)"
proof -
  have "slice_index (length xs) (int i) = min (length xs) i"
    by (simp add: slice_index_def)
  moreover have "slice_index (length xs) (int i + int m) = min (length xs) (i + m)"
    by (simp add: slice_index_def nat_add_distrib)
  ultimately show ?thesis
    by (cases "i \<le> length xs") (simp_all add: py_slice_def Let_def min_def)
qed

lemma py_range_pos:
  "0 < m \<Longrightarrow> py_range 0 (int n) (int m) = Inr (map (\<lambda>k. int (k * m)) [0..<(n + m - 1) div m])"
proof -
  assume m: "0 < m"
  have "(int n - 0 + int m - 1) div int m = int ((n + m - 1) div m)"
    using m by (simp add: zdiv_int algebra_simps)
  then show ?thesis using m by (simp add: py_range_def)
qed

lemma windows_Nil [simp]: "windows n [] = []"
  by (simp add: windows.simps)

lemma windows_Cons:
  "0 < n \<Longrightarrow> xs \<noteq> [] \<Longrightarrow> windows n xs = take n xs # windows n (drop n xs)"
  by (subst windows.simps) simp

lemma write_cue_window:
  "write_cue (word_start w) (word_end (last (w # rest)))
     (strip (concat (map word_text (w # rest)))) st =
   emit_all [window_caption (w # rest)] st"
  by (simp add: write_cue_emit window_caption_def del: last.simps)

lemma chunk_loop_emit:
  assumes "0 < m"
  shows "\<forall>k\<in>set ks. k * m < length ws \<Longrightarrow>
     chunk_loop ws (int m) (map (\<lambda>k. int (k * m)) ks) st =
     Inr (emit_all (map (\<lambda>k. window_caption (take m (drop (k * m) ws))) ks) st)"
proof (induction ks arbitrary: st)
  case Nil
  then show ?case by simp
next
  case (Cons k ks)
  from Cons.prems have lt: "k * m < length ws" by simp
  then obtain w rest where wr: "take m (drop (k * m) ws) = w # rest"
    using assms by (cases "take m (drop (k * m) ws)") auto
  have rec: "chunk_loop ws (int m) (map (\<lambda>k. int (k * m)) ks) st' =
     Inr (emit_all (map (\<lambda>k. window_caption (take m (drop (k * m) ws))) ks) st')" for st'
    using Cons by simp
  have sl: "py_slice ws (int (k * m)) (int (k * m) + int m) = w # rest"
    using wr by (simp only: py_slice_nat)
  have "chunk_loop ws (int m) (map (\<lambda>k. int (k * m)) (k # ks)) st =
        chunk_loop ws (int m) (map (\<lambda>k. int (k * m)) ks)
          (write_cue (word_start w) (word_end (last (w # rest)))
             (strip (concat (map word_text (w # rest)))) st)"
    using sl by (simp del: of_nat_mult last.simps)
  also have "\<dots> = chunk_loop ws (int m) (map (\<lambda>k. int (k * m)) ks)
          (emit_all [window_caption (w # rest)] st)"
    by (simp only: write_cue_window)
  also have "\<dots> = Inr (emit_all (map (\<lambda>k. window_caption (take m (drop (k * m) ws))) ks)
          (emit_all [window_caption (w # rest)] st))"
    by (rule rec)
  also have "\<dots> = Inr (emit_all (map (\<lambda>k. window_caption (take m (drop (k * m) ws))) (k # ks)) st)"
    by (simp add: emit_all_emit_all wr)
  finally show ?case .
qed

lemma windows_eq_map:
  "0 < m \<Longrightarrow> windows m xs = map (\<lambda>k. take m (drop (k * m) xs)) [0..<(length xs + m - 1) div m]"
proof (induction m xs rule: windows.induct)
  case (1 n xs)
  show ?case
  proof (cases "xs = []")
    case True
    then show ?thesis using 1(2) by simp
  next
    case False
    then have len: "0 < length xs" by simp
    have cnt: "(length xs + n - 1) div n = Suc ((length (drop n xs) + n - 1) div n)"
    proof (cases "n \<le> length xs")
      case True
      then have "length xs + n - 1 = (length xs - n + n - 1) + n" using 1(2) by simp
      then have "(length xs + n - 1) div n = (length xs - n + n - 1) div n + 1"
        using 1(2) by (simp only: div_add_self2)
      then show ?thesis by simp
    next
      case False
      then have "n * 1 \<le> length xs + n - 1" and "length xs + n - 1 < n * Suc 1"
        using len by arith+
      then have "(length xs + n - 1) div n = 1"
        by (rule div_nat_eqI)
      then show ?thesis using False by simp
    qed
    have shift: "take n (drop (k * n) (drop n xs)) = take n (drop (Suc k * n) xs)" for k
      by (simp add: add.commute)
    have ih: "windows n (drop n xs) =
       map (\<lambda>k. take n (drop (k * n) (drop n xs))) [0..<(length (drop n xs) + n - 1) div n]"
      using 1 False by simp
    have "windows n xs = take n xs # windows n (drop n xs)"
      using 1(2) False by (rule windows_Cons)
    also have "\<dots> = take n xs #
        map (\<lambda>k. take n (drop (Suc k * n) xs)) [0..<(length (drop n xs) + n - 1) div n]"
      by (simp only: ih shift)
    also have "\<dots> = map (\<lambda>k. take n (drop (k * n) xs)) [0..<Suc ((length (drop n xs) + n - 1) div n)]"
      by (simp only: map_upt_Suc) simp
    finally show ?thesis by (simp only: cnt)
  qed
qed

lemma range_index_bound:
  fixes k m n :: nat
  assumes "0 < m" "k < (n + m - 1) div m"
  shows "k * m < n"
proof -
  have "Suc k \<le> (n + m - 1) div m" using assms(2) by simp
  then have "Suc k * m \<le> ((n + m - 1) div m) * m" by (rule mult_le_mono1)
  also have "\<dots> \<le> n + m - 1" by simp
  finally show ?thesis using assms(1) by simp
qed

lemma py_range_neg:
  assumes "mw < 0" "0 < n"
  shows "py_range 0 (int n) mw = Inr []"
proof -
  have "(0 - int n - mw - 1) div (- mw) \<le> 0"
  proof -
    have "0 - int n - mw - 1 \<le> - mw - 1" using assms by simp
    then have "(0 - int n - mw - 1) div (- mw) \<le> (- mw - 1) div (- mw)"
      using assms(1) by (intro zdiv_mono1) simp_all
    also have "(- mw - 1) div (- mw) = 0"
      using assms(1) by (intro div_pos_pos_trivial) simp_all
    finally show ?thesis .
  qed
  then show ?thesis using assms by (simp add: py_range_def)
qed

lemma process_segment_emit:
  "process_segment max_words seg st = Inr (emit_all (emitted max_words seg) st)"
proof (cases max_words)
  case None
  then show ?thesis by (simp add: process_segment_def emitted_def whole_segment_emit)
next
  case (Some mw)
  show ?thesis
  proof (cases "seg_words seg")
    case None
    then show ?thesis using Some
      by (simp add: process_segment_def emitted_def whole_segment_emit)
  next
    case (Some ws)
    note ws = this
    consider "mw = 0 \<or> ws = []" | "mw < 0" "ws \<noteq> []" | "0 < mw" "ws \<noteq> []"
      by linarith
    then show ?thesis
    proof cases
      case 1
      then show ?thesis using \<open>max_words = Some mw\<close> ws
        by (simp add: process_segment_def emitted_def whole_segment_emit)
    next
      case 2
      then have "py_range 0 (int (length ws)) mw = Inr []"
        by (intro py_range_neg) simp_all
      then show ?thesis using 2 \<open>max_words = Some mw\<close> ws
        by (simp add: process_segment_def emitted_def)
    next
      case 3
      define m where "m = nat mw"
      then have m: "0 < m" "mw = int m" using 3 by simp_all
      have r: "py_range 0 (int (length ws)) (int m) =
          Inr (map (\<lambda>k. int (k * m)) [0..<(length ws + m - 1) div m])"
        using m(1) by (rule py_range_pos)
      have c: "chunk_loop ws (int m) (map (\<lambda>k. int (k * m)) [0..<(length ws + m - 1) div m]) st =
          Inr (emit_all (map (\<lambda>k. window_caption (take m (drop (k * m) ws)))
                 [0..<(length ws + m - 1) div m]) st)"
        by (rule chunk_loop_emit [OF m(1)]) (auto intro: range_index_bound [OF m(1)])
      have w: "map window_caption (windows m ws) =
          map (\<lambda>k. window_caption (take m (drop (k * m) ws))) [0..<(length ws + m - 1) div m]"
        using m(1) by (simp add: windows_eq_map)
      show ?thesis using 3 \<open>max_words = Some mw\<close> ws m r c w
        by (simp add: process_segment_def emitted_def del: of_nat_mult)
    qed
  qed
qed

lemma segments_loop_emit:
  "segments_loop max_words segs st = Inr (emit_all (concat (map (emitted max_words) segs)) st)"
  by (induction segs arbitrary: st) (simp_all add: process_segment_emit emit_all_emit_all)

section \<open>Numbering and windows\<close>

lemma transcribe_to_srt_emit:
  "transcribe_to_srt segs max_words =
     Inr (emit_all (concat (map (emitted max_words) segs)) initial_writer)"
  by (simp add: transcribe_to_srt_def segments_loop_emit)

lemma generate_emit:
  "generate segs max_words =
     Inr (emit_all (concat (map (emitted max_words) segs)) initial_writer)"
  by (simp add: generate_def segments_loop_emit)

lemma cues_emit_all_initial [simp]: "cues (emit_all cs initial_writer) = number_from 1 cs"
  by (simp add: emit_all_def initial_writer_def)

lemma caption_num_emit_all_initial [simp]:
  "caption_num (emit_all cs initial_writer) = 1 + int (length cs)"
  by (simp add: emit_all_def initial_writer_def)

lemma written_emit_all_initial [simp]:
  "written (emit_all cs initial_writer) = concat (map srt_block (number_from 1 cs))"
  by (simp add: emit_all_def initial_writer_def)

lemma number_from_nth:
  "i < length cs \<Longrightarrow>
   number_from k cs ! i =
     \<lparr>cue_index = k + int i, cue_start = fst (cs ! i), cue_end = fst (snd (cs ! i)),
      cue_text = snd (snd (cs ! i))\<rparr>"
proof (induction k cs arbitrary: i rule: number_from.induct)
  case (1 k)
  then show ?case by simp
next
  case (2 k s e t cs)
  then show ?case by (cases i) (simp_all add: algebra_simps)
qed

lemma upto_from_length: "map (\<lambda>i. k + int i) [0..<n] = [k..k + int n - 1]"
proof (induction n)
  case 0
  then show ?case by simp
next
  case (Suc n)
  have "[k..k + int (Suc n) - 1] = [k..k + int n - 1] @ [k + int n]"
    by (simp add: upto_rec2 add.commute)
  then show ?case using Suc by simp
qed

lemma index_number_from: "map cue_index (number_from k cs) = [k..k + int (length cs) - 1]"
proof -
  have "map cue_index (number_from k cs) = map (\<lambda>i. k + int i) [0..<length cs]"
    by (rule nth_equalityI) (simp_all add: number_from_nth)
  then show ?thesis by (simp only: upto_from_length)
qed

lemma start_number_from: "map cue_start (number_from k cs) = map fst cs"
  by (induction k cs rule: number_from.induct) simp_all

lemma concat_windows: "0 < n \<Longrightarrow> concat (windows n xs) = xs"
proof (induction n xs rule: windows.induct)
  case (1 n xs)
  then show ?case by (cases "xs = []") (simp_all add: windows_Cons)
qed

lemma windows_sizes:
  "0 < n \<Longrightarrow> w \<in> set (windows n xs) \<Longrightarrow> w \<noteq> [] \<and> length w \<le> n \<and> set w \<subseteq> set xs"
proof (induction n xs rule: windows.induct)
  case (1 n xs)
  show ?case
  proof (cases "xs = []")
    case True
    then show ?thesis using 1 by simp
  next
    case False
    then have "w = take n xs \<or> w \<in> set (windows n (drop n xs))"
      using 1(2,3) by (simp add: windows_Cons)
    then show ?thesis
    proof
      assume "w = take n xs"
      then show ?thesis using False 1(2) by (auto dest: in_set_takeD)
    next
      assume "w \<in> set (windows n (drop n xs))"
      then have "w \<noteq> [] \<and> length w \<le> n \<and> set w \<subseteq> set (drop n xs)"
        using 1 False by simp
      then show ?thesis by (auto dest: in_set_dropD)
    qed
  qed
qed


lemma windows_one: "windows (Suc 0) xs = map (\<lambda>x. [x]) xs"
proof (induction xs)
  case Nil
  then show ?case by simp
next
  case (Cons x xs)
  then show ?case by (simp add: windows_Cons)
qed

section \<open>Evaluating the running example\<close>

lemma strip_eval [simp]:
  "strip '' General Kenobi '' = ''General Kenobi''"
  "strip '' Hi there friend'' = ''Hi there friend''"
  "strip ''Hi there'' = ''Hi there''"
  "strip '' friend'' = ''friend''"
  "strip ''Hi'' = ''Hi''"
  "strip '' there'' = ''there''"
  by (simp_all add: strip_def py_isspace_def)

lemma upto_eval: "[1..2] = [1, 2::int]" "[1..3] = [1, 2, 3::int]" "[1..4] = [1, 2, 3, 4::int]"
  by (simp_all add: upto_rec1)

lemma emitted_greeting:
  "emitted (Some 2) greeting =
     [(0, 1, ''Hi there''), (1, 1.6, ''friend'')]"
  by (simp add: emitted_def greeting_def hi_there_friend_def windows_Cons window_caption_def)

lemma emitted_reply: "emitted max_words reply = [(2.5, 4, ''General Kenobi'')]"
  by (simp add: emitted_def reply_def whole_caption_def split: option.splits)

lemma emitted_zero: "concat (map (emitted (Some 0)) segs) = map whole_caption segs"
  by (induction segs) (simp_all add: emitted_def split: option.splits)

lemma emitted_negative:
  "mw < 0 \<Longrightarrow>
   concat (map (emitted (Some mw)) segs) =
     map whole_caption (filter (\<lambda>seg. seg_words seg = None \<or> seg_words seg = Some []) segs)"
  by (induction segs) (simp_all add: emitted_def split: option.splits)

lemma emitted_positive: "0 < mw \<Longrightarrow> emitted (Some mw) seg = policy_captions (nat mw) seg"
  by (simp add: emitted_def policy_captions_def split: option.splits)

section \<open>The whole-segment policy\<close>




section \<open>Cue numbers\<close>

text \<open>
  Claim C4. For every list of segments and every \<open>max_words\<close> (absent or any integer),
  the cue numbers of one run are 1, 2, ..., K, where K is the number of cues emitted,
  whatever policy each segment took: the counter is 1 before the first segment, and
  every emission writes the counter into its cue and then adds one to it.
\<close>

theorem index_contiguity:
  "(\<exists>st. transcribe_to_srt segs max_words = Inr st \<and>
        map cue_index (cues st) = [1..int (length (cues st))] \<and>
        caption_num st = 1 + int (length (cues st))) \<and>
   caption_num initial_writer = 1 \<and> cues initial_writer = [] \<and>
   caption_num (write_cue s e t w) = caption_num w + 1 \<and>
   cues (write_cue s e t w) =
     cues w @ [\<lparr>cue_index = caption_num w, cue_start = s, cue_end = e, cue_text = t\<rparr>]"
proof (intro conjI)
  show "\<exists>st. transcribe_to_srt segs max_words = Inr st \<and>
        map cue_index (cues st) = [1..int (length (cues st))] \<and>
        caption_num st = 1 + int (length (cues st))"
    by (simp add: transcribe_to_srt_emit index_number_from)
qed (simp_all add: initial_writer_def write_cue_def Let_def)

theorem index_contiguity_witness:
  "\<exists>st. transcribe_to_srt [greeting, reply] (Some 2) = Inr st \<and>
        length (cues st) = 3 \<and> map cue_index (cues st) = [1, 2, 3] \<and> caption_num st = 4"
proof -
  from index_contiguity [of "[greeting, reply]" "Some 2"]
  obtain st where st: "transcribe_to_srt [greeting, reply] (Some 2) = Inr st"
      "map cue_index (cues st) = [1..int (length (cues st))]"
      "caption_num st = 1 + int (length (cues st))"
    by blast
  have len: "length (cues st) = 3"
    using st(1) by (auto simp add: transcribe_to_srt_emit emitted_greeting emitted_reply)
  have "map cue_index (cues st) = [1, 2, 3]"
    using st(2) by (simp only: len) (simp add: upto_eval)
  then show ?thesis using st(1,3) len by simp
qed

section \<open>Zero and negative \<open>max_words\<close>\<close>

text \<open>
  Claim C9. With \<open>max_words = 0\<close> every segment is emitted whole, also one that carries
  words. With a negative \<open>max_words\<close> a segment that carries a non-empty word sequence
  contributes no cue at all, and the segments without words are still emitted whole.
  Both loops (transcribe.py and app.py) behave so.
\<close>

theorem non_positive_max_words:
  "(\<forall>segs. \<exists>st. transcribe_to_srt segs (Some 0) = Inr st \<and> generate segs (Some 0) = Inr st \<and>
        cues st = number_from 1 (map whole_caption segs)) \<and>
   (\<forall>segs mw. mw < 0 \<longrightarrow>
      (\<exists>st. transcribe_to_srt segs (Some mw) = Inr st \<and> generate segs (Some mw) = Inr st \<and>
        cues st = number_from 1 (map whole_caption
          (filter (\<lambda>seg. seg_words seg = None \<or> seg_words seg = Some []) segs))))"
proof (intro conjI allI impI)
  fix segs :: "segment list"
  show "\<exists>st. transcribe_to_srt segs (Some 0) = Inr st \<and> generate segs (Some 0) = Inr st \<and>
        cues st = number_from 1 (map whole_caption segs)"
    by (simp add: transcribe_to_srt_emit generate_emit emitted_zero)
next
  fix segs :: "segment list" and mw :: int
  assume neg: "mw < 0"
  have run: "transcribe_to_srt segs (Some mw) = generate segs (Some mw)"
    by (simp add: transcribe_to_srt_emit generate_emit)
  have "cues (emit_all (concat (map (emitted (Some mw)) segs)) initial_writer) =
      number_from 1 (map whole_caption
        (filter (\<lambda>seg. seg_words seg = None \<or> seg_words seg = Some []) segs))"
    using neg by (simp add: emitted_negative)
  then show "\<exists>st. transcribe_to_srt segs (Some mw) = Inr st \<and>
        generate segs (Some mw) = Inr st \<and>
        cues st = number_from 1 (map whole_caption
          (filter (\<lambda>seg. seg_words seg = None \<or> seg_words seg = Some []) segs))"
    using run by (simp add: generate_emit)
qed

theorem non_positive_max_words_witness:
  "(-2::int) < 0 \<and>
   (\<exists>st. transcribe_to_srt [greeting, reply] (Some (-2)) = Inr st \<and>
      generate [greeting, reply] (Some (-2)) = Inr st \<and>
      cues st = [\<lparr>cue_index = 1, cue_start = 2.5, cue_end = 4,
                  cue_text = ''General Kenobi''\<rparr>])"
proof -
  have neg: "(-2::int) < 0" by simp
  have keep: "filter (\<lambda>seg. seg_words seg = None \<or> seg_words seg = Some []) [greeting, reply]
      = [reply]"
    by (simp add: greeting_def reply_def hi_there_friend_def)
  have "\<exists>st. transcribe_to_srt [greeting, reply] (Some (-2)) = Inr st \<and>
      generate [greeting, reply] (Some (-2)) = Inr st \<and>
      cues st = number_from 1 (map whole_caption
        (filter (\<lambda>seg. seg_words seg = None \<or> seg_words seg = Some []) [greeting, reply]))"
    using non_positive_max_words neg by blast
  then obtain st where st: "transcribe_to_srt [greeting, reply] (Some (-2)) = Inr st"
      "generate [greeting, reply] (Some (-2)) = Inr st"
      "cues st = number_from 1 (map whole_caption [reply])"
    unfolding keep by (elim exE conjE)
  have "cues st = [\<lparr>cue_index = 1, cue_start = 2.5, cue_end = 4,
                  cue_text = ''General Kenobi''\<rparr>]"
    using st(3) by (simp add: whole_caption_def reply_def)
  with st(1,2) neg show ?thesis by blast
qed

section \<open>No window is empty\<close>

text \<open>
  Claim C10. For a positive \<open>max_words\<close> and a non-empty word sequence of length L, the
  loop indices are 0, max_words, 2 * max_words, ... below L; every window
  \<open>words[i : i + max_words]\<close> at such an index is non-empty, so reading its first and its
  last element never raises and the loop returns; and the windows, one after the other,
  are the word sequence: every word is in exactly one window.
\<close>

theorem window_safety:
  assumes "0 < mw" and "ws \<noteq> []"
  shows "\<exists>n. py_range 0 (int (length ws)) mw = Inr (map (\<lambda>k. int k * mw) [0..<n]) \<and>
           int (n - 1) * mw < int (length ws) \<and> int (length ws) \<le> int n * mw \<and>
           (\<forall>i\<in>set (map (\<lambda>k. int k * mw) [0..<n]).
              0 \<le> i \<and> i < int (length ws) \<and> py_slice ws i (i + mw) \<noteq> []) \<and>
           concat (map (\<lambda>i. py_slice ws i (i + mw)) (map (\<lambda>k. int k * mw) [0..<n])) = ws \<and>
           (\<forall>st. \<exists>st'. chunk_loop ws mw (map (\<lambda>k. int k * mw) [0..<n]) st = Inr st')"
proof -
  define m where "m = nat mw"
  then have m: "0 < m" "mw = int m" using assms by simp_all
  define n where "n = (length ws + m - 1) div m"
  have r: "py_range 0 (int (length ws)) (int m) = Inr (map (\<lambda>k. int (k * m)) [0..<n])"
    unfolding n_def using m(1) by (rule py_range_pos)
  have b: "k * m < length ws" if "k < n" for k
    using that unfolding n_def by (rule range_index_bound [OF m(1)])
  have npos: "0 < n"
  proof -
    have "m \<le> length ws + m - 1" using assms(2) by (cases ws) simp_all
    then have "m div m \<le> (length ws + m - 1) div m" by (rule div_le_mono)
    then show ?thesis using m(1) by (simp add: n_def)
  qed
  have lo: "(n - 1) * m < length ws" by (rule b) (use npos in simp)
  have hi: "length ws \<le> n * m"
  proof -
    have "length ws + m - 1 < (length ws + m - 1) div m * m + m"
      using m(1) by (metis add.commute dividend_less_div_times)
    then show ?thesis by (simp add: n_def)
  qed
  have sl: "py_slice ws (int (k * m)) (int (k * m) + int m) = take m (drop (k * m) ws)" for k
    by (rule py_slice_nat)
  have ne: "take m (drop (k * m) ws) \<noteq> []" if "k < n" for k
    using b [OF that] m(1) by simp
  have cover: "concat (map (\<lambda>k. take m (drop (k * m) ws)) [0..<n]) = ws"
    using concat_windows [OF m(1), of ws] windows_eq_map [OF m(1), of ws] by (simp add: n_def)
  have loop: "\<exists>st'. chunk_loop ws (int m) (map (\<lambda>k. int (k * m)) [0..<n]) st = Inr st'" for st
    using chunk_loop_emit [OF m(1), of "[0..<n]" ws st] b by simp
  have 1: "py_range 0 (int (length ws)) mw = Inr (map (\<lambda>k. int k * mw) [0..<n])"
    using r by (simp add: m(2))
  have 2: "int (n - 1) * mw < int (length ws)"
    using lo unfolding m(2) by (metis of_nat_less_iff of_nat_mult)
  have 3: "int (length ws) \<le> int n * mw"
    using hi unfolding m(2) by (metis of_nat_le_iff of_nat_mult)
  have 4: "\<forall>i\<in>set (map (\<lambda>k. int k * mw) [0..<n]).
              0 \<le> i \<and> i < int (length ws) \<and> py_slice ws i (i + mw) \<noteq> []"
  proof
    fix i assume "i \<in> set (map (\<lambda>k. int k * mw) [0..<n])"
    then obtain k where k: "k < n" "i = int (k * m)" by (auto simp: m(2))
    have "i < int (length ws)" using b [OF k(1)] k(2) by (simp del: of_nat_mult)
    moreover have "py_slice ws i (i + mw) \<noteq> []"
      using ne [OF k(1)] sl [of k] by (simp only: k(2) m(2)) simp
    ultimately show "0 \<le> i \<and> i < int (length ws) \<and> py_slice ws i (i + mw) \<noteq> []"
      using k(2) by simp
  qed
  have sl': "py_slice ws (int k * mw) (int k * mw + mw) = take m (drop (k * m) ws)" for k
    using sl [of k] by (simp add: m(2))
  have 5: "concat (map (\<lambda>i. py_slice ws i (i + mw)) (map (\<lambda>k. int k * mw) [0..<n])) = ws"
    by (simp add: comp_def sl' cover)
  have 6: "\<forall>st. \<exists>st'. chunk_loop ws mw (map (\<lambda>k. int k * mw) [0..<n]) st = Inr st'"
    using loop by (simp add: m(2))
  from 1 2 3 4 5 6 show ?thesis by blast
qed

theorem window_safety_witness:
  "(0::int) < 2 \<and> hi_there_friend \<noteq> [] \<and>
   py_range 0 (int (length hi_there_friend)) 2 = Inr [0, 2] \<and>
   py_slice hi_there_friend 0 (0 + 2) \<noteq> [] \<and> py_slice hi_there_friend 2 (2 + 2) \<noteq> [] \<and>
   concat (map (\<lambda>i. py_slice hi_there_friend i (i + 2)) [0, 2]) = hi_there_friend \<and>
   (\<forall>st. \<exists>st'. chunk_loop hi_there_friend 2 [0, 2] st = Inr st')"
proof -
  have pos: "(0::int) < 2" by simp
  have ne: "hi_there_friend \<noteq> []" by (simp add: hi_there_friend_def)
  have len: "length hi_there_friend = 3" by (simp add: hi_there_friend_def)
  obtain n where n:
    "py_range 0 (int (length hi_there_friend)) 2 = Inr (map (\<lambda>k. int k * 2) [0..<n]) \<and>
     int (n - 1) * 2 < int (length hi_there_friend) \<and>
     int (length hi_there_friend) \<le> int n * 2 \<and>
     (\<forall>i\<in>set (map (\<lambda>k. int k * 2) [0..<n]).
         0 \<le> i \<and> i < int (length hi_there_friend) \<and>
         py_slice hi_there_friend i (i + 2) \<noteq> []) \<and>
     concat (map (\<lambda>i. py_slice hi_there_friend i (i + 2)) (map (\<lambda>k. int k * 2) [0..<n])) =
       hi_there_friend \<and>
     (\<forall>st. \<exists>st'. chunk_loop hi_there_friend 2 (map (\<lambda>k. int k * 2) [0..<n]) st = Inr st')"
    using window_safety [OF pos ne] ..
  have "int (n - 1) * 2 < int (length hi_there_friend)"
    using n by (elim conjE)
  moreover have "int (length hi_there_friend) \<le> int n * 2"
    using n by (elim conjE)
  ultimately have "n - 1 \<le> 1" "2 \<le> n" unfolding len by linarith+
  then have n2: "n = 2" by arith
  have idx: "map (\<lambda>k. int k * 2) [0..<n] = [0, 2]"
    by (simp add: n2 upt_rec)
  show ?thesis using n pos ne unfolding idx by simp
qed

section \<open>The word-windowed policy\<close>



section \<open>The policy is chosen segment by segment\<close>

text \<open>
  Claim C5. With a positive \<open>max_words\<close> the policy is chosen for each segment on its
  own: a segment with a non-empty word sequence is cut into windows, a segment without
  words (none, or an empty sequence) is one whole cue, and the numbers stay consecutive
  across the change. In particular, for two segments of which the first has words and
  the second has not, \<open>max_words = 1\<close> gives one cue per word of the first and then one
  whole cue for the second.
\<close>

theorem per_segment_policy:
  "(\<forall>segs mw. 0 < mw \<longrightarrow>
      (\<exists>st. transcribe_to_srt segs (Some mw) = Inr st \<and>
         cues st = number_from 1 (concat (map (policy_captions (nat mw)) segs)) \<and>
         map cue_index (cues st) = [1..int (length (cues st))])) \<and>
   (\<forall>(seg1::segment) (seg2::segment) ws.
      seg_words seg1 = Some ws \<and> ws \<noteq> [] \<and>
      (seg_words seg2 = None \<or> seg_words seg2 = Some []) \<longrightarrow>
      (\<exists>st. transcribe_to_srt [seg1, seg2] (Some 1) = Inr st \<and>
         cues st = number_from 1
           (map (\<lambda>w. (word_start w, word_end w, strip (word_text w))) ws @
            [(seg_start seg2, seg_end seg2, strip (seg_text seg2))])))"
proof (intro conjI allI impI)
  fix segs :: "segment list" and mw :: int
  assume "0 < mw"
  then have e: "emitted (Some mw) = policy_captions (nat mw)"
    by (intro ext) (rule emitted_positive)
  show "\<exists>st. transcribe_to_srt segs (Some mw) = Inr st \<and>
         cues st = number_from 1 (concat (map (policy_captions (nat mw)) segs)) \<and>
         map cue_index (cues st) = [1..int (length (cues st))]"
    by (simp add: transcribe_to_srt_emit index_number_from e)
next
  fix seg1 seg2 :: segment and ws :: "Word list"
  assume h: "seg_words seg1 = Some ws \<and> ws \<noteq> [] \<and>
      (seg_words seg2 = None \<or> seg_words seg2 = Some [])"
  then have e1: "emitted (Some 1) seg1 = map (\<lambda>w. (word_start w, word_end w, strip (word_text w))) ws"
    by (simp add: emitted_def windows_one window_caption_def comp_def)
  from h have e2: "emitted (Some 1) seg2 = [(seg_start seg2, seg_end seg2, strip (seg_text seg2))]"
    by (auto simp add: emitted_def whole_caption_def)
  show "\<exists>st. transcribe_to_srt [seg1, seg2] (Some 1) = Inr st \<and>
         cues st = number_from 1
           (map (\<lambda>w. (word_start w, word_end w, strip (word_text w))) ws @
            [(seg_start seg2, seg_end seg2, strip (seg_text seg2))])"
    by (simp add: transcribe_to_srt_emit e1 e2)
qed

theorem per_segment_policy_witness:
  "seg_words greeting = Some hi_there_friend \<and> hi_there_friend \<noteq> [] \<and>
   seg_words reply = None \<and>
   (\<exists>st. transcribe_to_srt [greeting, reply] (Some 1) = Inr st \<and>
      cues st = [\<lparr>cue_index = 1, cue_start = 0, cue_end = 0.5, cue_text = ''Hi''\<rparr>,
                 \<lparr>cue_index = 2, cue_start = 0.5, cue_end = 1, cue_text = ''there''\<rparr>,
                 \<lparr>cue_index = 3, cue_start = 1, cue_end = 1.6, cue_text = ''friend''\<rparr>,
                 \<lparr>cue_index = 4, cue_start = 2.5, cue_end = 4, cue_text = ''General Kenobi''\<rparr>])"
proof -
  have sw: "seg_words greeting = Some hi_there_friend" by (simp add: greeting_def)
  have ne: "hi_there_friend \<noteq> []" by (simp add: hi_there_friend_def)
  have nw: "seg_words reply = None" by (simp add: reply_def)
  have "\<exists>st. transcribe_to_srt [greeting, reply] (Some 1) = Inr st \<and>
         cues st = number_from 1
           (map (\<lambda>w. (word_start w, word_end w, strip (word_text w))) hi_there_friend @
            [(seg_start reply, seg_end reply, strip (seg_text reply))])"
    using per_segment_policy sw ne nw by blast
  then obtain st where r: "transcribe_to_srt [greeting, reply] (Some 1) = Inr st"
      "cues st = number_from 1
           (map (\<lambda>w. (word_start w, word_end w, strip (word_text w))) hi_there_friend @
            [(seg_start reply, seg_end reply, strip (seg_text reply))])"
    by (elim exE conjE)
  have "cues st = [\<lparr>cue_index = 1, cue_start = 0, cue_end = 0.5, cue_text = ''Hi''\<rparr>,
                 \<lparr>cue_index = 2, cue_start = 0.5, cue_end = 1, cue_text = ''there''\<rparr>,
                 \<lparr>cue_index = 3, cue_start = 1, cue_end = 1.6, cue_text = ''friend''\<rparr>,
                 \<lparr>cue_index = 4, cue_start = 2.5, cue_end = 4, cue_text = ''General Kenobi''\<rparr>]"
    unfolding r(2) by (simp add: hi_there_friend_def reply_def)
  with r(1) sw ne nw show ?thesis by blast
qed

section \<open>The style colour\<close>

lemma hex_not_hash: "is_hex_digit c \<Longrightarrow> c \<noteq> CHR ''#''"
  by (auto simp add: is_hex_digit_def)

text \<open>
  Claim C8. For six hexadecimal digits RRGGBB, with or without a leading \<open>#\<close>,
  \<open>hex_to_ass\<close> returns \<open>&H\<close> followed by the blue pair, the green pair and the red pair.
\<close>

theorem hex_to_ass_reorders:
  assumes "list_all is_hex_digit [r1, r2, g1, g2, b1, b2]"
  shows "hex_to_ass [r1, r2, g1, g2, b1, b2] = [CHR ''&'', CHR ''H'', b1, b2, g1, g2, r1, r2] \<and>
         hex_to_ass (CHR ''#'' # [r1, r2, g1, g2, b1, b2]) =
           [CHR ''&'', CHR ''H'', b1, b2, g1, g2, r1, r2]"
proof -
  have "r1 \<noteq> CHR ''#''" using assms by (simp add: hex_not_hash)
  then have l: "lstrip_chars ''#'' [r1, r2, g1, g2, b1, b2] = [r1, r2, g1, g2, b1, b2]"
      "lstrip_chars ''#'' (CHR ''#'' # [r1, r2, g1, g2, b1, b2]) = [r1, r2, g1, g2, b1, b2]"
    by (simp_all add: lstrip_chars_def)
  have s: "py_slice [r1, r2, g1, g2, b1, b2] 0 2 = [r1, r2]"
      "py_slice [r1, r2, g1, g2, b1, b2] 2 4 = [g1, g2]"
      "py_slice [r1, r2, g1, g2, b1, b2] 4 6 = [b1, b2]"
    by (simp_all add: py_slice_def slice_index_def)
  show ?thesis
    unfolding hex_to_ass_def Let_def l s by simp
qed

theorem hex_to_ass_reorders_witness:
  "list_all is_hex_digit ''1A2b3C'' \<and> hex_to_ass ''1A2b3C'' = ''&H3C2b1A'' \<and>
   hex_to_ass ''#1A2b3C'' = ''&H3C2b1A''"
proof -
  have h: "list_all is_hex_digit [CHR ''1'', CHR ''A'', CHR ''2'', CHR ''b'', CHR ''3'', CHR ''C'']"
    by (simp add: is_hex_digit_def)
  from hex_to_ass_reorders [OF h] h show ?thesis by simp
qed

section \<open>Cue start times\<close>

lemma emitted_starts:
  assumes "x \<in> set (map fst (emitted max_words seg))"
  shows "x = seg_start seg \<or> (\<exists>ws w. seg_words seg = Some ws \<and> w \<in> set ws \<and> x = word_start w)"
proof (cases "map fst (emitted max_words seg) = [seg_start seg]")
  case True
  then show ?thesis using assms by simp
next
  case False
  then obtain mw ws where c: "max_words = Some mw" "seg_words seg = Some ws" "0 < mw"
      "emitted max_words seg = map window_caption (windows (nat mw) ws)"
    using assms
    by (auto simp add: emitted_def whole_caption_def split: option.splits if_splits)
  then obtain w where w: "w \<in> set (windows (nat mw) ws)" "x = word_start (hd w)"
    using assms by (auto simp add: window_caption_def)
  have "w \<noteq> [] \<and> set w \<subseteq> set ws"
    using windows_sizes [of "nat mw" w ws] w(1) c(3) by simp
  then have "hd w \<in> set ws" by (cases w) auto
  then show ?thesis using c(2) w(2) by blast
qed

lemma sorted_window_heads:
  "0 < m \<Longrightarrow> sorted (map f xs) \<Longrightarrow> sorted (map (\<lambda>w. f (hd w)) (windows m xs))"
proof (induction m xs rule: windows.induct)
  case (1 n xs)
  show ?case
  proof (cases "xs = []")
    case True
    then show ?thesis by simp
  next
    case False
    have srt: "sorted (map f (drop n xs))"
      using 1(3) by (simp add: drop_map [symmetric])
    have ih: "sorted (map (\<lambda>w. f (hd w)) (windows n (drop n xs)))"
      using 1(1) [OF _ 1(2) srt] 1(2) False by simp
    have hd_le: "f (hd (take n xs)) \<le> f (hd w)" if "w \<in> set (windows n (drop n xs))" for w
    proof -
      have "w \<noteq> [] \<and> set w \<subseteq> set (drop n xs)"
        using windows_sizes [OF 1(2) that] by simp
      then have "hd w \<in> set xs" by (cases w) (auto dest: in_set_dropD)
      moreover obtain y ys where xs: "xs = y # ys" using False by (cases xs) auto
      ultimately have "f y \<le> f (hd w)" using 1(3) by auto
      then show ?thesis using xs 1(2) by (cases n) simp_all
    qed
    show ?thesis
      using ih hd_le by (simp add: windows_Cons [OF 1(2) False])
  qed
qed

lemma emitted_sorted:
  assumes "words_in_order seg"
  shows "sorted (map fst (emitted max_words seg))"
proof (cases "map fst (emitted max_words seg) = [seg_start seg] \<or> emitted max_words seg = []")
  case True
  then show ?thesis by auto
next
  case False
  then obtain mw ws where c: "max_words = Some mw" "seg_words seg = Some ws" "0 < mw"
      "emitted max_words seg = map window_caption (windows (nat mw) ws)"
    by (auto simp add: emitted_def whole_caption_def split: option.splits if_splits)
  have "sorted (map word_start ws)" using assms c(2) by (simp add: words_in_order_def)
  then have "sorted (map (\<lambda>w. word_start (hd w)) (windows (nat mw) ws))"
    using c(3) by (intro sorted_window_heads) simp_all
  then show ?thesis by (simp add: c(4) window_caption_def comp_def)
qed

lemma starts_sorted:
  assumes "segments_in_order segs" "list_all words_in_order segs" "words_inside segs"
  shows "sorted (concat (map (\<lambda>seg. map fst (emitted max_words seg)) segs)) \<and>
         (\<forall>x\<in>set (concat (map (\<lambda>seg. map fst (emitted max_words seg)) segs)).
            seg_start (hd segs) \<le> x)"
  using assms
proof (induction segs)
  case Nil
  then show ?case by simp
next
  case (Cons seg rest)
  let ?S = "\<lambda>seg. map fst (emitted max_words seg)"
  have ord: "segments_in_order rest" "list_all words_in_order rest" "words_inside rest"
    using Cons.prems by (simp_all add: segments_in_order_def)
  note ih = Cons.IH [OF ord]
  have lower: "seg_start seg \<le> x" if "x \<in> set (?S seg)" for x
    using emitted_starts [OF that] Cons.prems(3)
    by (auto simp add: list_all_iff)
  have blk: "sorted (?S seg)"
    using Cons.prems(2) by (simp add: emitted_sorted)
  show ?case
  proof (cases rest)
    case Nil
    then show ?thesis using blk lower by simp
  next
    case (Cons nxt rest')
    have le: "seg_start seg \<le> seg_start nxt"
      using Cons.prems(1) Cons by (simp add: segments_in_order_def)
    have upper: "x \<le> seg_start nxt" if "x \<in> set (?S seg)" for x
      using emitted_starts [OF that] Cons.prems(3) Cons le
      by (auto simp add: list_all_iff)
    have rest_lower: "seg_start nxt \<le> y"
      if "y \<in> set (concat (map ?S rest))" for y
      using ih that Cons by simp
    have cross: "x \<le> y" if "x \<in> set (?S seg)" "y \<in> set (concat (map ?S rest))" for x y
      using upper [OF that(1)] rest_lower [OF that(2)] by simp
    have "sorted (?S seg @ concat (map ?S rest))"
      using blk ih cross by (simp add: sorted_append)
    moreover have "seg_start seg \<le> x" if "x \<in> set (?S seg @ concat (map ?S rest))" for x
    proof -
      from that consider "x \<in> set (?S seg)" | "x \<in> set (concat (map ?S rest))"
        by auto
      then show ?thesis
      proof cases
        case 1
        then show ?thesis by (rule lower)
      next
        case 2
        then show ?thesis using rest_lower [OF 2] le by simp
      qed
    qed
    ultimately show ?thesis by simp
  qed
qed

text \<open>
  Claim C6, as amended. The start times of the cues of one run do not decrease, given
  that the segment starts do not decrease, that the word starts of each segment do not
  decrease, and that every word of a segment starts no earlier than its segment and no
  later than the following segment.
\<close>

theorem cue_starts_sorted:
  assumes "segments_in_order segs" and "list_all words_in_order segs" and "words_inside segs"
  shows "\<exists>st. transcribe_to_srt segs max_words = Inr st \<and> sorted (map cue_start (cues st))"
proof -
  have "map cue_start (number_from 1 (concat (map (emitted max_words) segs))) =
        concat (map (\<lambda>seg. map fst (emitted max_words seg)) segs)"
    by (simp add: start_number_from map_concat comp_def)
  then show ?thesis
    using starts_sorted [OF assms, of max_words]
    by (simp add: transcribe_to_srt_emit)
qed

theorem cue_starts_sorted_witness:
  "segments_in_order [greeting, reply] \<and> list_all words_in_order [greeting, reply] \<and>
   words_inside [greeting, reply] \<and>
   cue_starts (transcribe_to_srt [greeting, reply] (Some 2)) = Inr [0, 1, 2.5] \<and>
   sorted [0, 1, 2.5 :: real]"
proof -
  have h: "segments_in_order [greeting, reply]" "list_all words_in_order [greeting, reply]"
      "words_inside [greeting, reply]"
    by (simp_all add: segments_in_order_def words_in_order_def greeting_def reply_def
        hi_there_friend_def)
  obtain st where st: "transcribe_to_srt [greeting, reply] (Some 2) = Inr st \<and>
      sorted (map cue_start (cues st))"
    using cue_starts_sorted [OF h, of "Some 2"] ..
  have run: "transcribe_to_srt [greeting, reply] (Some 2) = Inr st" using st by (rule conjunct1)
  have "map cue_start (cues st) = [0, 1, 2.5]"
    using run by (auto simp add: transcribe_to_srt_emit emitted_greeting emitted_reply)
  then have "cue_starts (transcribe_to_srt [greeting, reply] (Some 2)) = Inr [0, 1, 2.5]"
    "sorted [0, 1, 2.5 :: real]"
    using st by (simp_all add: cue_starts_def)
  with h show ?thesis by blast
qed

text \<open>
  Claim C6 as stated asks only for the first two orderings. Two overlapping segments
  meet both, and with \<open>max_words = 1\<close> the second word of the first segment (at 8) is
  emitted before the second segment's word (at 5).
\<close>

theorem cue_starts_unsorted_counterexample:
  "segments_in_order overlapping \<and> list_all words_in_order overlapping \<and>
   cue_starts (transcribe_to_srt overlapping (Some 1)) = Inr [0, 8, 5] \<and>
   \<not> sorted [0, 8, 5 :: real] \<and> \<not> words_inside overlapping"
  by (simp add: segments_in_order_def words_in_order_def overlapping_def cue_starts_def
      transcribe_to_srt_emit emitted_def windows_Cons window_caption_def start_number_from)

section \<open>Serialization and reading back\<close>

lemma split_on_not_Nil [simp]: "split_on sep s \<noteq> []"
  by (induction s) (auto split: list.splits)






































end
